theory Spec2Isabelle
  imports Main "HOL-Library.Word"
begin

section \<open>Startup: command-line parsing (main, lines 50--116)\<close>

subsection \<open>Library functions used by the parser\<close>

text \<open>
  \<open>std::stoi\<close> as the C++ standard library defines it (base 10): leading white space is
  skipped, an optional sign is read, then the longest run of decimal digits; the rest of
  the string is ignored. Without any digit it throws \<open>std::invalid_argument\<close>; a value
  that does not fit an \<open>int\<close> (32 bits) makes it throw \<open>std::out_of_range\<close>.
\<close>

datatype exception = invalid_argument | out_of_range

definition isspace :: "char \<Rightarrow> bool" where
  "isspace c = (c = CHR '' '' \<or> (9 \<le> (of_char c :: nat) \<and> (of_char c :: nat) \<le> 13))"

definition isdigit :: "char \<Rightarrow> bool" where
  "isdigit c = (48 \<le> (of_char c :: nat) \<and> (of_char c :: nat) \<le> 57)"

fun digits_value :: "int \<Rightarrow> string \<Rightarrow> int" where
  "digits_value acc [] = acc"
| "digits_value acc (c # cs) = digits_value (acc * 10 + (int (of_char c) - 48)) cs"

definition INT_MIN :: int where "INT_MIN = - (2 ^ 31)"
definition INT_MAX :: int where "INT_MAX = 2 ^ 31 - 1"

definition stoi :: "string \<Rightarrow> exception + int" where
  "stoi s =
     (let s1 = dropWhile isspace s;
          neg = (s1 \<noteq> [] \<and> hd s1 = CHR ''-'');
          s2 = (if s1 \<noteq> [] \<and> (hd s1 = CHR ''-'' \<or> hd s1 = CHR ''+'') then tl s1 else s1);
          ds = takeWhile isdigit s2
      in if ds = [] then Inl invalid_argument
         else let v = (if neg then - digits_value 0 ds else digits_value 0 ds)
              in if v < INT_MIN \<or> INT_MAX < v then Inl out_of_range else Inr v)"

text \<open>\<open>std::string::find(':')\<close>: the index of the first colon, \<open>npos\<close> as \<open>None\<close>.\<close>

fun find_char :: "char \<Rightarrow> string \<Rightarrow> nat option" where
  "find_char c [] = None"
| "find_char c (x # xs) =
     (if x = c then Some 0 else map_option Suc (find_char c xs))"

subsection \<open>The parameters and the parsing loop\<close>

text \<open>The five locals that the loop fills: lines 57--61.\<close>

record config =
  nodeHost :: string
  nodePort :: int
  loginName :: string
  password :: string
  algo :: string

definition no_config :: config where
  "no_config = \<lparr>nodeHost = [], nodePort = - 1, loginName = [], password = [], algo = []\<rparr>"

text \<open>What is written to \<open>std::cerr\<close> and \<open>std::cout\<close>.\<close>

datatype message =
    Usage string
  | InvalidNodeAddress
  | UnknownArguments string
  | PleaseDefineNode
  | InvalidAlgorithm
  | ConnectingToNode string int
  | LoginIs string
  | AlgorithmIs string
  | ConnectingToTheNode
  | UnableConnect
  | JobPoolEmpty
  | StartingJob nat nat nat "64 word"
  | FoundSolutions nat "8 word list"
  | ExitingTheMiner

text \<open>
  How the startup code ends: \<open>return 1\<close> after a message on \<open>std::cerr\<close>, an exception
  that nothing catches (\<open>main\<close> has no handler, so \<open>std::terminate\<close> ends the process),
  or the parameters with which the session loop is entered.
\<close>

datatype startup =
    Exit int message
  | Uncaught exception
  | Start config

text \<open>
  The loop of lines 63--86, \<open>for (int i = 2; i < argc; i += 2)\<close>, reading
  \<open>argv[i-1]\<close> as the key and \<open>argv[i]\<close> as the value; \<open>argc\<close> is the length of
  \<open>argv\<close>.
\<close>

function parse_args :: "string list \<Rightarrow> nat \<Rightarrow> config \<Rightarrow> startup" where
  "parse_args argv i p =
     (if i < length argv then
        (let key = argv ! (i - 1); val = argv ! i in
         if key = ''-node'' then
           (case find_char CHR '':'' val of
              None \<Rightarrow> Exit 1 InvalidNodeAddress
            | Some colonPos \<Rightarrow>
                (case stoi (drop (colonPos + 1) val) of
                   Inl e \<Rightarrow> Uncaught e
                 | Inr port \<Rightarrow>
                     parse_args argv (i + 2)
                       (p\<lparr>nodeHost := take colonPos val, nodePort := port\<rparr>)))
         else if key = ''-login'' then parse_args argv (i + 2) (p\<lparr>loginName := val\<rparr>)
         else if key = ''-pass'' then parse_args argv (i + 2) (p\<lparr>password := val\<rparr>)
         else if key = ''-algo'' then parse_args argv (i + 2) (p\<lparr>algo := val\<rparr>)
         else Exit 1 (UnknownArguments key))
      else Start p)"
  by pat_completeness auto
termination
  by (relation "measure (\<lambda>(argv, i, p). length argv - i)") auto

declare parse_args.simps [simp del]

text \<open>
  Lines 52--97: the argument count, the loop, and the two checks after it. The usage line
  prints \<open>argv[0]\<close>.
\<close>

definition main_startup :: "string list \<Rightarrow> startup" where
  "main_startup argv =
     (if length argv < 7 then Exit 1 (Usage (case argv of [] \<Rightarrow> [] | a # _ \<Rightarrow> a))
      else
        (case parse_args argv 2 no_config of
           Start p \<Rightarrow>
             if nodePort p = - 1 \<or> nodeHost p = [] then Exit 1 PleaseDefineNode
             else if algo p \<noteq> ''C31'' \<and> algo p \<noteq> ''C32'' then Exit 1 InvalidAlgorithm
             else Start p
         | r \<Rightarrow> r))"

text \<open>Lines 105--116: the solver's edge bits follow the algorithm name.\<close>

definition edge_bits :: "config \<Rightarrow> int" where
  "edge_bits p = (if algo p = ''C31'' then 31 else 32)"

section \<open>The session loop (main, lines 99--202)\<close>

subsection \<open>Collaborators declared outside this file\<close>

text \<open>
  Modelled from the spec: \<open>CuckaJob\<close> is declared in \<open>miner_network.h\<close>, which is not
  among the sources. The spec gives a job an id, a height, a difficulty, job-specific
  seed material and a validity flag; \<open>is_valid\<close> reads the flag.
\<close>

record CuckaJob =
  jobId :: nat
  height :: nat
  difficulty :: nat
  pre_pow :: "8 word list"
  valid :: bool

definition is_valid :: "CuckaJob \<Rightarrow> bool" where
  "is_valid j = valid j"

text \<open>The seed hash \<open>uint64_t v[4]\<close>.\<close>

type_synonym seed_hash = "64 word \<times> 64 word \<times> 64 word \<times> 64 word"

text \<open>
  Modelled from the spec: the seed derivation (\<open>CuckaJob::calculate_seed_hash\<close>) and the
  solver (\<open>set_hash\<close>, \<open>build_graph\<close>, \<open>resolve_found_to_nonces\<close> of \<open>cuckatoo.h\<close>) are
  not among the sources. The spec makes them deterministic functions: a seed from a job
  and a nonce, zero or more solution candidates from a seed. They are parameters here, and
  so is the type of a \<open>CycleSolution\<close>.
\<close>

record 'sol solver =
  calculate_seed_hash :: "CuckaJob \<Rightarrow> 64 word \<Rightarrow> seed_hash"
  build_graph :: "seed_hash \<Rightarrow> 'sol list"
  resolve_found_to_nonces :: "'sol list \<Rightarrow> 8 word list \<times> 64 word list"

text \<open>
  Modelled from the spec: the \<open>send...\<close> functions of \<open>MinerNetwork\<close> are not among the
  sources. By the spec each one puts one request on the FIFO outbound queue that the
  writer thread drains: login, keep-alive, get-job, and submit with the edge bits, the
  job, the nonce and the solution nonces.
\<close>

datatype request =
    Login string string bool
  | KeepAlive
  | GetJob
  | Submit int CuckaJob "64 word" "64 word list"

subsection \<open>What the loop does to the outside, and what it reads from it\<close>

text \<open>
  Every effect of \<open>main\<close> on the outside is an event, stamped with the reading of the
  steady clock (in nanoseconds) at which the program performs it. The clock is an
  unbounded integer: the 64-bit tick count of the source does not wrap within centuries.
\<close>

datatype event =
    Print message
  | PrintErr message
  | Connect string int bool
  | SleepFor int
  | StartReader
  | StartWriter
  | Enqueue request
  | SetHash seed_hash
  | StopRunning
  | JoinReader
  | JoinWriter
  | DeleteSolver

type_synonym effects = "(int \<times> event) list"

text \<open>
  Where control is: at the condition of the outer loop (line 127), at the condition of
  the inner loop (line 144), or gone: returned from \<open>main\<close>, or terminated by an
  exception that nothing caught.
\<close>

datatype location = Supervising | Orchestrating | Returned int | Terminated exception

record state =
  at :: location
  exiting :: bool
  clock :: int
  last_get_job_request_time :: int
  last_keep_alive_request_time :: int

text \<open>
  What the outside supplies for one evaluation of a loop condition and the loop body that
  follows it: the signals handled since the previous one, the time that passed since then
  beyond the program's own sleeps, the result of \<open>network.connect\<close>, of
  \<open>network.is_running()\<close> and of \<open>network.getActiveJob()\<close>, the number drawn from the
  random generator, and the time the blocking call of the body takes (\<open>connect\<close>, or the
  solver).
\<close>

record input =
  signals :: "int list"
  elapsed :: nat
  connect_ok :: bool
  is_running :: bool
  active_job :: CuckaJob
  rnd :: "64 word"
  busy :: nat

definition seconds :: "int \<Rightarrow> int" where
  "seconds n = n * 1000000000"

definition milliseconds :: "int \<Rightarrow> int" where
  "milliseconds n = n * 1000000"

subsection \<open>The signal handler (lines 43--48)\<close>

definition SIGINT :: int where
  "SIGINT = 2"

definition signal_handler :: "int \<Rightarrow> state \<Rightarrow> effects \<times> state" where
  "signal_handler sig st =
     (if sig = SIGINT then ([(clock st, Print ExitingTheMiner)], st\<lparr>exiting := True\<rparr>)
      else ([], st))"

fun deliver :: "int list \<Rightarrow> state \<Rightarrow> effects \<times> state" where
  "deliver [] st = ([], st)"
| "deliver (sig # sigs) st =
     (let (o1, st1) = signal_handler sig st;
          (o2, st2) = deliver sigs st1
      in (o1 @ o2, st2))"

text \<open>
  The handler only sets the flag, and the flag is read at the two loop conditions only.
  So the signals handled while a loop body runs are taken together with those handled
  before the next condition is read: \<open>arrive\<close> lets the time pass and runs the handler
  for each of them, then the condition is evaluated.
\<close>

definition arrive :: "input \<Rightarrow> state \<Rightarrow> effects \<times> state" where
  "arrive i st = deliver (signals i) (st\<lparr>clock := clock st + int (elapsed i)\<rparr>)"

text \<open>\<open>std::this_thread::sleep_for\<close> blocks for at least the given duration.\<close>

definition sleep_for :: "int \<Rightarrow> state \<Rightarrow> effects \<times> state" where
  "sleep_for d st = ([(clock st, SleepFor d)], st\<lparr>clock := clock st + d\<rparr>)"

subsection \<open>The outer loop: connect, or back off (lines 127--142, 199--202)\<close>

definition supervise :: "config \<Rightarrow> input \<Rightarrow> state \<Rightarrow> effects \<times> state" where
  "supervise cfg i st =
     (if exiting st then ([(clock st, DeleteSolver)], st\<lparr>at := Returned 0\<rparr>)
      else
        let o1 = [(clock st, Print ConnectingToTheNode),
                  (clock st, Connect (nodeHost cfg) (nodePort cfg) (connect_ok i))];
            st1 = st\<lparr>clock := clock st + int (busy i)\<rparr>
        in if \<not> connect_ok i then
             let (o2, st2) = sleep_for (seconds 30) st1
             in (o1 @ (clock st1, Print UnableConnect) # o2, st2)
           else
             (o1 @ [(clock st1, StartReader), (clock st1, StartWriter),
                    (clock st1, Enqueue (Login (loginName cfg) (password cfg) True))],
              st1\<lparr>at := Orchestrating,
                  last_get_job_request_time := clock st1,
                  last_keep_alive_request_time := clock st1\<rparr>))"

subsection \<open>The inner loop (lines 144--196)\<close>

text \<open>Lines 146--149.\<close>

definition keep_alive :: "int \<Rightarrow> state \<Rightarrow> effects \<times> state" where
  "keep_alive now st =
     (if now - last_keep_alive_request_time st > seconds 20
      then ([(clock st, Enqueue KeepAlive)], st\<lparr>last_keep_alive_request_time := now\<rparr>)
      else ([], st))"

text \<open>Lines 154--164: no valid job in the slot.\<close>

definition wait_for_job :: "int \<Rightarrow> state \<Rightarrow> effects \<times> state" where
  "wait_for_job now st =
     (let (o1, st1) =
            (if now - last_get_job_request_time st > seconds 5
             then ([(clock st, Print JobPoolEmpty), (clock st, Enqueue GetJob)],
                   st\<lparr>last_get_job_request_time := now\<rparr>)
             else ([], st));
          (o2, st2) = sleep_for (milliseconds 100) st1
      in (o1 @ o2, st2))"

text \<open>
  Lines 166--189: one solving attempt. The wall-clock prefix of the \<open>Starting job\<close> line
  is left out of the message.
\<close>

definition mine :: "config \<Rightarrow> 'sol solver \<Rightarrow> input \<Rightarrow> CuckaJob \<Rightarrow> state \<Rightarrow> effects \<times> state" where
  "mine cfg sol i currentTask st =
     (let nonce = rnd i;
          v = calculate_seed_hash sol currentTask nonce;
          o1 = [(clock st, Print (StartingJob (jobId currentTask) (height currentTask)
                                    (difficulty currentTask) nonce)),
                (clock st, SetHash v)];
          res_graphs = build_graph sol v;
          st1 = st\<lparr>clock := clock st + int (busy i)\<rparr>
      in if res_graphs \<noteq> [] then
           let (hash, res_nonces) = resolve_found_to_nonces sol res_graphs
           in (o1 @ [(clock st1, Print (FoundSolutions (length res_graphs) hash)),
                     (clock st1, Enqueue (Submit (edge_bits cfg) currentTask nonce res_nonces))],
               st1)
         else (o1, st1))"

text \<open>
  One evaluation of the condition of line 144 and, when it holds, one pass through the
  body; when it fails, lines 192--196.
\<close>

definition orchestrate :: "config \<Rightarrow> 'sol solver \<Rightarrow> input \<Rightarrow> state \<Rightarrow> effects \<times> state" where
  "orchestrate cfg sol i st =
     (if is_running i \<and> \<not> exiting st then
        let now = clock st;
            (o1, st1) = keep_alive now st;
            currentTask = active_job i
        in if \<not> is_valid currentTask then
             let (o2, st2) = wait_for_job now st1 in (o1 @ o2, st2)
           else
             let (o2, st2) = mine cfg sol i currentTask st1 in (o1 @ o2, st2)
      else ([(clock st, StopRunning), (clock st, JoinReader), (clock st, JoinWriter)],
            st\<lparr>at := Supervising\<rparr>))"

subsection \<open>Steps, runs, and the whole of main\<close>

definition step :: "config \<Rightarrow> 'sol solver \<Rightarrow> input \<Rightarrow> state \<Rightarrow> effects \<times> state" where
  "step cfg sol i st =
     (case at st of
        Supervising \<Rightarrow>
          (let (o0, st0) = arrive i st; (o1, st1) = supervise cfg i st0 in (o0 @ o1, st1))
      | Orchestrating \<Rightarrow>
          (let (o0, st0) = arrive i st; (o1, st1) = orchestrate cfg sol i st0 in (o0 @ o1, st1))
      | Returned c \<Rightarrow> ([], st)
      | Terminated e \<Rightarrow> ([], st))"

fun run :: "config \<Rightarrow> 'sol solver \<Rightarrow> input list \<Rightarrow> state \<Rightarrow> effects \<times> state" where
  "run cfg sol [] st = ([], st)"
| "run cfg sol (i # ins) st =
     (let (o1, st1) = step cfg sol i st;
          (o2, st2) = run cfg sol ins st1
      in (o1 @ o2, st2))"

text \<open>
  The state in which the outer loop is entered. The two timers are declared inside the
  loop only (lines 141--142); they hold 0 until the first epoch sets them.
\<close>

definition initial :: state where
  "initial = \<lparr>at = Supervising, exiting = False, clock = 0,
              last_get_job_request_time = 0, last_keep_alive_request_time = 0\<rparr>"

definition main :: "(int \<Rightarrow> 'sol solver) \<Rightarrow> string list \<Rightarrow> input list \<Rightarrow> effects \<times> state" where
  "main solvers argv ins =
     (case main_startup argv of
        Exit c m \<Rightarrow> ([(0, PrintErr m)], initial\<lparr>at := Returned c\<rparr>)
      | Uncaught e \<Rightarrow> ([], initial\<lparr>at := Terminated e\<rparr>)
      | Start cfg \<Rightarrow>
          (let o0 = [(0, Print (ConnectingToNode (nodeHost cfg) (nodePort cfg))),
                     (0, Print (LoginIs (loginName cfg))),
                     (0, Print (AlgorithmIs (algo cfg)))];
               (o1, st) = run cfg (solvers (edge_bits cfg)) ins initial
           in (o0 @ o1, st)))"

subsection \<open>Reading the effects\<close>

fun requests :: "effects \<Rightarrow> request list" where
  "requests [] = []"
| "requests ((t, Enqueue r) # out) = r # requests out"
| "requests (_ # out) = requests out"

fun times_of :: "request \<Rightarrow> effects \<Rightarrow> int list" where
  "times_of r [] = []"
| "times_of r ((t, e) # out) = (if e = Enqueue r then t # times_of r out else times_of r out)"

fun is_Submit :: "request \<Rightarrow> bool" where
  "is_Submit (Submit eb job nonce ns) = True"
| "is_Submit _ = False"

fun is_Connect :: "event \<Rightarrow> bool" where
  "is_Connect (Connect h p ok) = True"
| "is_Connect _ = False"

fun seeds :: "effects \<Rightarrow> seed_hash list" where
  "seeds [] = []"
| "seeds ((t, SetHash v) # out) = v # seeds out"
| "seeds (_ # out) = seeds out"

text \<open>
  The requests of one epoch: those enqueued after a successful connect and before the
  network is stopped. \<open>epochs_of\<close> lists them for every successful connect of a run.
\<close>

definition epoch_requests :: "effects \<Rightarrow> request list" where
  "epoch_requests out = requests (takeWhile (\<lambda>x. snd x \<noteq> StopRunning) out)"

fun epochs_of :: "effects \<Rightarrow> request list list" where
  "epochs_of [] = []"
| "epochs_of ((t, Connect h p ok) # out) =
     (if ok then epoch_requests out # epochs_of out else epochs_of out)"
| "epochs_of (_ # out) = epochs_of out"

subsection \<open>Concrete inputs\<close>

definition demo_config :: config where
  "demo_config = \<lparr>nodeHost = ''localhost'', nodePort = 3416, loginName = ''miner'',
                   password = [], algo = ''C31''\<rparr>"

definition no_job :: CuckaJob where
  "no_job = \<lparr>jobId = 0, height = 0, difficulty = 0, pre_pow = [], valid = False\<rparr>"

definition job7 :: CuckaJob where
  "job7 = \<lparr>jobId = 7, height = 100, difficulty = 1, pre_pow = [], valid = True\<rparr>"

text \<open>A stand-in solver over candidates of type \<open>nat\<close>: it finds one cycle when the nonce is 1.\<close>

definition demo_solver :: "nat solver" where
  "demo_solver =
     \<lparr>calculate_seed_hash = (\<lambda>j n. (n, of_nat (jobId j), 0, 0)),
      build_graph = (\<lambda>v. if fst v = 1 then [42] else []),
      resolve_found_to_nonces = (\<lambda>gs. ([], map of_nat gs))\<rparr>"

definition idle :: input where
  "idle = \<lparr>signals = [], elapsed = 0, connect_ok = True, is_running = True,
            active_job = no_job, rnd = 0, busy = 0\<rparr>"

definition epoch_start :: state where
  "epoch_start = \<lparr>at = Orchestrating, exiting = False, clock = 0,
                  last_get_job_request_time = 0, last_keep_alive_request_time = 0\<rparr>"

section \<open>Properties\<close>

subsection \<open>Reading effects of appended runs\<close>

lemma requests_append: "requests (a @ b) = requests a @ requests b"
  by (induction a rule: requests.induct) simp_all

lemma times_of_append: "times_of r (a @ b) = times_of r a @ times_of r b"
  by (induction a) auto

lemma seeds_append: "seeds (a @ b) = seeds a @ seeds b"
  by (induction a rule: seeds.induct) simp_all

lemma requests_replicate_Print: "requests (replicate n (t, Print m)) = []"
  by (induction n) simp_all

lemma times_of_replicate_Print: "times_of r (replicate n (t, Print m)) = []"
  by (induction n) simp_all

lemma seeds_replicate_Print: "seeds (replicate n (t, Print m)) = []"
  by (induction n) simp_all

subsection \<open>Signals change the flag only\<close>

lemma deliver_fields:
  "at (snd (deliver ss st)) = at st"
  "clock (snd (deliver ss st)) = clock st"
  "last_get_job_request_time (snd (deliver ss st)) = last_get_job_request_time st"
  "last_keep_alive_request_time (snd (deliver ss st)) = last_keep_alive_request_time st"
  by (induction ss arbitrary: st; simp add: signal_handler_def case_prod_beta)+

lemma deliver_exiting: "exiting (snd (deliver ss st)) = (exiting st \<or> SIGINT \<in> set ss)"
  by (induction ss arbitrary: st) (auto simp: signal_handler_def case_prod_beta)

lemma deliver_effects:
  "fst (deliver ss st) = replicate (count_list ss SIGINT) (clock st, Print ExitingTheMiner)"
proof (induction ss arbitrary: st)
  case Nil
  show ?case by simp
next
  case (Cons s ss)
  have "clock (snd (signal_handler s st)) = clock st"
    by (simp add: signal_handler_def)
  with Cons show ?case
    by (simp add: signal_handler_def case_prod_beta)
qed

lemma arrive_fields:
  "at (snd (arrive i st)) = at st"
  "clock (snd (arrive i st)) = clock st + int (elapsed i)"
  "last_get_job_request_time (snd (arrive i st)) = last_get_job_request_time st"
  "last_keep_alive_request_time (snd (arrive i st)) = last_keep_alive_request_time st"
  "exiting (snd (arrive i st)) = (exiting st \<or> SIGINT \<in> set (signals i))"
  by (simp_all add: arrive_def deliver_fields deliver_exiting)

lemma arrive_effects:
  "fst (arrive i st) =
     replicate (count_list (signals i) SIGINT) (clock st + int (elapsed i), Print ExitingTheMiner)"
  by (simp add: arrive_def deliver_effects)

lemma arrive_silent:
  "requests (fst (arrive i st)) = []"
  "times_of r (fst (arrive i st)) = []"
  "seeds (fst (arrive i st)) = []"
  by (simp_all add: arrive_effects requests_replicate_Print times_of_replicate_Print
      seeds_replicate_Print)

lemma arrive_quiet: "SIGINT \<notin> set (signals i) \<Longrightarrow> fst (arrive i st) = []"
  by (simp add: arrive_effects count_list_0_iff)

lemmas loop_defs = supervise_def orchestrate_def keep_alive_def wait_for_job_def mine_def
  sleep_for_def

lemmas step_simps = step_def case_prod_beta Let_def requests_append seeds_append
  times_of_append arrive_silent arrive_fields loop_defs

lemmas demo_defs = demo_config_def no_job_def job7_def demo_solver_def idle_def
  epoch_start_def initial_def SIGINT_def is_valid_def edge_bits_def

subsection \<open>One solving attempt\<close>

text \<open>
  C1. A pass through the loop body that finds a valid job in the slot and whose solver run
  returns at least one candidate enqueues exactly one submission. It carries the job that
  was read from the slot in that pass (so its job id) and the nonce drawn in that pass,
  and the one seed handed to the solver in that pass is the seed hash of that job and
  that nonce.
\<close>

theorem attempt_with_candidates_submits_once:
  assumes "at st = Orchestrating" and "\<not> exiting st" and "SIGINT \<notin> set (signals i)"
    and "is_running i" and "is_valid (active_job i)"
    and "build_graph sol (calculate_seed_hash sol (active_job i) (rnd i)) \<noteq> []"
  shows "filter is_Submit (requests (fst (step cfg sol i st))) =
           [Submit (edge_bits cfg) (active_job i) (rnd i)
              (snd (resolve_found_to_nonces sol
                 (build_graph sol (calculate_seed_hash sol (active_job i) (rnd i)))))]
         \<and> seeds (fst (step cfg sol i st)) = [calculate_seed_hash sol (active_job i) (rnd i)]"
  using assms
  by (simp add: step_def case_prod_beta Let_def requests_append seeds_append arrive_silent
      arrive_fields orchestrate_def keep_alive_def mine_def)

theorem attempt_with_candidates_submits_once_witness:
  "at epoch_start = Orchestrating \<and> \<not> exiting epoch_start
   \<and> SIGINT \<notin> set (signals (idle\<lparr>active_job := job7, rnd := 1\<rparr>))
   \<and> is_running (idle\<lparr>active_job := job7, rnd := 1\<rparr>)
   \<and> is_valid (active_job (idle\<lparr>active_job := job7, rnd := 1\<rparr>))
   \<and> build_graph demo_solver (calculate_seed_hash demo_solver job7 1) \<noteq> []
   \<and> filter is_Submit (requests (fst (step demo_config demo_solver
          (idle\<lparr>active_job := job7, rnd := 1\<rparr>) epoch_start))) = [Submit 31 job7 1 [42]]
   \<and> jobId job7 = 7"
proof -
  let ?i = "idle\<lparr>active_job := job7, rnd := 1\<rparr>"
  have h: "at epoch_start = Orchestrating" "\<not> exiting epoch_start"
    "SIGINT \<notin> set (signals ?i)" "is_running ?i" "is_valid (active_job ?i)"
    "build_graph demo_solver (calculate_seed_hash demo_solver (active_job ?i) (rnd ?i)) \<noteq> []"
    by (simp_all add: demo_defs)
  from attempt_with_candidates_submits_once [OF h, of demo_config] h show ?thesis
    by (simp add: demo_defs)
qed

text \<open>
  C10. A pass through the loop body that finds a valid job and whose solver run returns
  no candidate enqueues no submission and prints no solution summary. The only request
  it can enqueue is the keep-alive of that pass. It does not sleep, and control is back
  at the loop condition, from where the slot is polled again.
\<close>

theorem attempt_without_candidates_submits_nothing:
  assumes "at st = Orchestrating" and "\<not> exiting st" and "SIGINT \<notin> set (signals i)"
    and "is_running i" and "is_valid (active_job i)"
    and "build_graph sol (calculate_seed_hash sol (active_job i) (rnd i)) = []"
  shows "filter is_Submit (requests (fst (step cfg sol i st))) = []
         \<and> set (requests (fst (step cfg sol i st))) \<subseteq> {KeepAlive}
         \<and> (\<forall>t n h. (t, Print (FoundSolutions n h)) \<notin> set (fst (step cfg sol i st)))
         \<and> (\<forall>t d. (t, SleepFor d) \<notin> set (fst (step cfg sol i st)))
         \<and> at (snd (step cfg sol i st)) = Orchestrating"
  using assms
  by (simp add: step_def case_prod_beta Let_def requests_append seeds_append arrive_silent
      arrive_fields arrive_quiet orchestrate_def keep_alive_def mine_def)

theorem attempt_without_candidates_submits_nothing_witness:
  "at epoch_start = Orchestrating \<and> \<not> exiting epoch_start
   \<and> SIGINT \<notin> set (signals (idle\<lparr>active_job := job7, rnd := 2\<rparr>))
   \<and> is_running (idle\<lparr>active_job := job7, rnd := 2\<rparr>)
   \<and> is_valid (active_job (idle\<lparr>active_job := job7, rnd := 2\<rparr>))
   \<and> build_graph demo_solver (calculate_seed_hash demo_solver job7 2) = []
   \<and> requests (fst (step demo_config demo_solver
          (idle\<lparr>active_job := job7, rnd := 2\<rparr>) epoch_start)) = []
   \<and> at (snd (step demo_config demo_solver
          (idle\<lparr>active_job := job7, rnd := 2\<rparr>) epoch_start)) = Orchestrating"
proof -
  let ?i = "idle\<lparr>active_job := job7, rnd := 2\<rparr>"
  have h: "at epoch_start = Orchestrating" "\<not> exiting epoch_start"
    "SIGINT \<notin> set (signals ?i)" "is_running ?i" "is_valid (active_job ?i)"
    "build_graph demo_solver (calculate_seed_hash demo_solver (active_job ?i) (rnd ?i)) = []"
    by (simp_all add: demo_defs)
  from attempt_without_candidates_submits_nothing [OF h, of demo_config] h show ?thesis
    by (simp add: demo_defs step_simps seconds_def)
qed

subsection \<open>The two timers\<close>

lemma step_clock: "clock st \<le> clock (snd (step cfg sol i st))"
  by (simp add: step_simps seconds_def milliseconds_def split: location.splits)

lemma sorted_wrt_short: "length xs \<le> 1 \<Longrightarrow> sorted_wrt P xs"
  by (cases xs) auto

lemma step_keep_alive_after:
  assumes "L \<le> clock st" and "at st = Orchestrating \<longrightarrow> L \<le> last_keep_alive_request_time st"
  shows "L \<le> clock (snd (step cfg sol i st))"
    and "at (snd (step cfg sol i st)) = Orchestrating \<longrightarrow>
           L \<le> last_keep_alive_request_time (snd (step cfg sol i st))"
    and "\<forall>t \<in> set (times_of KeepAlive (fst (step cfg sol i st))). L + seconds 20 < t"
  using assms
  by (auto simp add: step_simps seconds_def milliseconds_def split: location.splits if_splits)

lemma step_keep_alive_last:
  "\<forall>t \<in> set (times_of KeepAlive (fst (step cfg sol i st))).
     t \<le> clock (snd (step cfg sol i st)) \<and> at (snd (step cfg sol i st)) = Orchestrating
     \<and> t \<le> last_keep_alive_request_time (snd (step cfg sol i st))"
  by (auto simp add: step_simps seconds_def milliseconds_def split: location.splits if_splits)

lemma step_keep_alive_once: "length (times_of KeepAlive (fst (step cfg sol i st))) \<le> 1"
  by (auto simp add: step_simps split: location.splits if_splits)

lemma run_keep_alive_after:
  "L \<le> clock st \<Longrightarrow> (at st = Orchestrating \<longrightarrow> L \<le> last_keep_alive_request_time st) \<Longrightarrow>
   \<forall>t \<in> set (times_of KeepAlive (fst (run cfg sol ins st))). L + seconds 20 < t"
proof (induction ins arbitrary: st)
  case Nil
  show ?case by simp
next
  case (Cons i ins)
  note s = step_keep_alive_after [OF Cons.prems, of cfg sol i]
  from Cons.IH [OF s(1) s(2)] s(3) show ?case
    by (auto simp add: case_prod_beta times_of_append)
qed

lemma run_keep_alive_spaced:
  "sorted_wrt (\<lambda>a b. a + seconds 20 < b) (times_of KeepAlive (fst (run cfg sol ins st)))"
proof (induction ins arbitrary: st)
  case Nil
  show ?case by simp
next
  case (Cons i ins)
  let ?st1 = "snd (step cfg sol i st)"
  let ?o1 = "times_of KeepAlive (fst (step cfg sol i st))"
  let ?o2 = "times_of KeepAlive (fst (run cfg sol ins ?st1))"
  have a: "sorted_wrt (\<lambda>a b. a + seconds 20 < b) ?o1"
    by (rule sorted_wrt_short) (rule step_keep_alive_once)
  have b: "\<forall>x \<in> set ?o1. \<forall>y \<in> set ?o2. x + seconds 20 < y"
  proof
    fix x assume "x \<in> set ?o1"
    with step_keep_alive_last [of cfg sol i st]
    have "x \<le> clock ?st1" and "at ?st1 = Orchestrating \<longrightarrow> x \<le> last_keep_alive_request_time ?st1"
      by auto
    then show "\<forall>y \<in> set ?o2. x + seconds 20 < y"
      by (rule run_keep_alive_after)
  qed
  from a b Cons.IH [of ?st1] show ?case
    by (simp add: case_prod_beta times_of_append sorted_wrt_append)
qed












subsection \<open>Keep-alive\<close>

text \<open>
  C3, as amended. In every pass through the loop body, if strictly more than 20 seconds
  have passed since the keep-alive timer was set, a keep-alive request is enqueued and
  the timer is set to the time of this pass. In every run, whatever the cadence of the
  loop, any two keep-alive requests are more than 20 seconds apart.
\<close>

theorem keep_alive_when_overdue:
  assumes "at st = Orchestrating" and "\<not> exiting st" and "SIGINT \<notin> set (signals i)"
    and "is_running i"
    and "seconds 20 < clock st + int (elapsed i) - last_keep_alive_request_time st"
  shows "times_of KeepAlive (fst (step cfg sol i st)) = [clock st + int (elapsed i)]
     \<and> last_keep_alive_request_time (snd (step cfg sol i st)) = clock st + int (elapsed i)
     \<and> sorted_wrt (\<lambda>a b. a + seconds 20 < b) (times_of KeepAlive (fst (run cfg sol ins st0)))"
proof -
  have "times_of KeepAlive (fst (step cfg sol i st)) = [clock st + int (elapsed i)]"
    using assms by (simp add: step_simps)
  moreover have "last_keep_alive_request_time (snd (step cfg sol i st)) = clock st + int (elapsed i)"
    using assms by (simp add: step_simps)
  ultimately show ?thesis
    by (simp add: run_keep_alive_spaced)
qed

theorem keep_alive_when_overdue_witness:
  "at epoch_start = Orchestrating \<and> \<not> exiting epoch_start
   \<and> SIGINT \<notin> set (signals (idle\<lparr>elapsed := 20000000001\<rparr>))
   \<and> is_running (idle\<lparr>elapsed := 20000000001\<rparr>)
   \<and> seconds 20 < clock epoch_start + int (elapsed (idle\<lparr>elapsed := 20000000001\<rparr>))
        - last_keep_alive_request_time epoch_start
   \<and> times_of KeepAlive (fst (step demo_config demo_solver (idle\<lparr>elapsed := 20000000001\<rparr>)
        epoch_start)) = [20000000001]"
proof -
  let ?i = "idle\<lparr>elapsed := 20000000001\<rparr>"
  have h: "at epoch_start = Orchestrating" "\<not> exiting epoch_start"
    "SIGINT \<notin> set (signals ?i)" "is_running ?i"
    "seconds 20 < clock epoch_start + int (elapsed ?i) - last_keep_alive_request_time epoch_start"
    by (simp_all add: demo_defs seconds_def)
  from keep_alive_when_overdue [OF h, of demo_config demo_solver "[]" epoch_start] h
  show ?thesis
    by (simp add: demo_defs)
qed

text \<open>
  The claim as stated fails: when exactly 20 seconds have passed since the timer was set,
  the pass enqueues no keep-alive request, since the comparison of line 146 is strict.
\<close>

theorem keep_alive_at_20s_counterexample:
  "at epoch_start = Orchestrating \<and> \<not> exiting epoch_start
   \<and> is_running (idle\<lparr>elapsed := 20000000000\<rparr>)
   \<and> signals (idle\<lparr>elapsed := 20000000000\<rparr>) = []
   \<and> seconds 20 \<le> clock (snd (arrive (idle\<lparr>elapsed := 20000000000\<rparr>) epoch_start))
        - last_keep_alive_request_time epoch_start
   \<and> times_of KeepAlive (fst (step demo_config demo_solver (idle\<lparr>elapsed := 20000000000\<rparr>)
        epoch_start)) = []"
  by (simp add: demo_defs step_simps seconds_def milliseconds_def)

subsection \<open>Leaving an epoch\<close>



subsection \<open>Connecting, and shutting down\<close>

lemma step_halted: "at st = Returned c \<Longrightarrow> step cfg sol i st = ([], st)"
  by (simp add: step_def)

lemma run_halted: "at st = Returned c \<Longrightarrow> run cfg sol ins st = ([], st)"
  by (induction ins) (simp_all add: step_halted)

lemma step_times: "\<forall>x \<in> set (fst (step cfg sol i st)). clock st \<le> fst x"
  by (auto simp add: step_def case_prod_beta Let_def arrive_fields arrive_effects loop_defs
      split: location.splits if_splits)

lemma run_times: "\<forall>x \<in> set (fst (run cfg sol ins st)). clock st \<le> fst x"
proof (induction ins arbitrary: st)
  case Nil
  show ?case by simp
next
  case (Cons i ins)
  from Cons.IH [of "snd (step cfg sol i st)"] step_clock [of st cfg sol i]
  have "\<forall>x \<in> set (fst (run cfg sol ins (snd (step cfg sol i st)))). clock st \<le> fst x"
    by fastforce
  with step_times [of cfg sol i st] show ?case
    by (auto simp add: case_prod_beta)
qed

lemma step_alive:
  assumes "\<not> exiting st" and "at st = Supervising \<or> at st = Orchestrating"
    and "SIGINT \<notin> set (signals i)"
  shows "\<not> exiting (snd (step cfg sol i st))"
    and "at (snd (step cfg sol i st)) = Supervising \<or> at (snd (step cfg sol i st)) = Orchestrating"
  using assms by (elim disjE; simp add: step_simps)+

lemma run_alive:
  assumes "\<not> exiting st" and "at st = Supervising \<or> at st = Orchestrating"
    and "\<forall>j \<in> set ins. SIGINT \<notin> set (signals j)"
  shows "\<not> exiting (snd (run cfg sol ins st)) \<and>
     (at (snd (run cfg sol ins st)) = Supervising \<or> at (snd (run cfg sol ins st)) = Orchestrating)"
  using assms
proof (induction ins arbitrary: st)
  case Nil
  then show ?case by simp
next
  case (Cons i ins)
  from Cons.prems have "SIGINT \<notin> set (signals i)" by simp
  note s = step_alive [OF Cons.prems(1,2) this, of cfg sol]
  from Cons.prems(3) have "\<forall>j \<in> set ins. SIGINT \<notin> set (signals j)" by simp
  from Cons.IH [OF s this] show ?case
    by (simp add: case_prod_beta)
qed

lemma step_returns_on_exit:
  assumes "\<forall>c. at st = Returned c \<longrightarrow> c = 0 \<and> exiting st"
  shows "\<forall>c. at (snd (step cfg sol i st)) = Returned c \<longrightarrow> c = 0 \<and> exiting (snd (step cfg sol i st))"
  using assms by (auto simp add: step_simps split: location.splits if_splits)

lemma run_returns_on_exit:
  assumes "\<forall>c. at st = Returned c \<longrightarrow> c = 0 \<and> exiting st"
  shows "\<forall>c. at (snd (run cfg sol ins st)) = Returned c \<longrightarrow> c = 0 \<and> exiting (snd (run cfg sol ins st))"
  using assms
proof (induction ins arbitrary: st)
  case Nil
  then show ?case by simp
next
  case (Cons i ins)
  from Cons.IH [OF step_returns_on_exit [OF Cons.prems, of cfg sol i]] show ?case
    by (simp add: case_prod_beta)
qed

text \<open>
  C5. A failed connect attempt is followed by a sleep of 30 seconds and leaves control at
  the outer loop. Every connect attempt of the run after it, so the next one, is stamped
  at least 30 seconds after the failed one. Without an interrupt the run after it never
  leaves the two loops, whatever the results of the later connects; and when \<open>main\<close>
  has returned, it has returned 0 with the \<open>exiting\<close> flag set.
\<close>

theorem failed_connect_backs_off:
  assumes "at st = Supervising" and "\<not> exiting st" and "SIGINT \<notin> set (signals i)"
    and "\<not> connect_ok i"
  shows "fst (step cfg sol i st) =
           [(clock st + int (elapsed i), Print ConnectingToTheNode),
            (clock st + int (elapsed i), Connect (nodeHost cfg) (nodePort cfg) False),
            (clock st + int (elapsed i) + int (busy i), Print UnableConnect),
            (clock st + int (elapsed i) + int (busy i), SleepFor (seconds 30))]
     \<and> at (snd (step cfg sol i st)) = Supervising
     \<and> (\<forall>x \<in> set (fst (run cfg sol ins (snd (step cfg sol i st)))).
           is_Connect (snd x) \<longrightarrow> clock st + int (elapsed i) + seconds 30 \<le> fst x)
     \<and> ((\<forall>j \<in> set ins. SIGINT \<notin> set (signals j)) \<longrightarrow>
           at (snd (run cfg sol ins (snd (step cfg sol i st)))) = Supervising
           \<or> at (snd (run cfg sol ins (snd (step cfg sol i st)))) = Orchestrating)
     \<and> (\<forall>c. at (snd (run cfg sol ins (snd (step cfg sol i st)))) = Returned c \<longrightarrow>
           c = 0 \<and> exiting (snd (run cfg sol ins (snd (step cfg sol i st)))))"
proof -
  let ?st1 = "snd (step cfg sol i st)"
  have a: "fst (step cfg sol i st) =
           [(clock st + int (elapsed i), Print ConnectingToTheNode),
            (clock st + int (elapsed i), Connect (nodeHost cfg) (nodePort cfg) False),
            (clock st + int (elapsed i) + int (busy i), Print UnableConnect),
            (clock st + int (elapsed i) + int (busy i), SleepFor (seconds 30))]"
    using assms by (simp add: step_simps arrive_quiet)
  have b: "at ?st1 = Supervising" "\<not> exiting ?st1"
    "clock ?st1 = clock st + int (elapsed i) + int (busy i) + seconds 30"
    using assms by (simp_all add: step_simps)
  have c: "\<forall>x \<in> set (fst (run cfg sol ins ?st1)).
             is_Connect (snd x) \<longrightarrow> clock st + int (elapsed i) + seconds 30 \<le> fst x"
    using run_times [of cfg sol ins ?st1] b(3) by fastforce
  have d: "(\<forall>j \<in> set ins. SIGINT \<notin> set (signals j)) \<longrightarrow>
           at (snd (run cfg sol ins ?st1)) = Supervising \<or> at (snd (run cfg sol ins ?st1)) = Orchestrating"
    using run_alive [of ?st1 ins cfg sol] b(1,2) by blast
  have e: "\<forall>c. at (snd (run cfg sol ins ?st1)) = Returned c \<longrightarrow>
           c = 0 \<and> exiting (snd (run cfg sol ins ?st1))"
    by (rule run_returns_on_exit) (simp add: b(1))
  from a b(1) c d e show ?thesis by blast
qed

theorem failed_connect_backs_off_witness:
  "at initial = Supervising \<and> \<not> exiting initial
   \<and> SIGINT \<notin> set (signals (idle\<lparr>connect_ok := False\<rparr>))
   \<and> \<not> connect_ok (idle\<lparr>connect_ok := False\<rparr>)
   \<and> SIGINT \<notin> set (signals idle)
   \<and> fst (step demo_config demo_solver (idle\<lparr>connect_ok := False\<rparr>) initial) =
         [(0, Print ConnectingToTheNode), (0, Connect ''localhost'' 3416 False),
          (0, Print UnableConnect), (0, SleepFor (seconds 30))]
   \<and> at (snd (step demo_config demo_solver (idle\<lparr>connect_ok := False\<rparr>) initial)) = Supervising
   \<and> (at (snd (run demo_config demo_solver [idle]
          (snd (step demo_config demo_solver (idle\<lparr>connect_ok := False\<rparr>) initial))))
          = Supervising
       \<or> at (snd (run demo_config demo_solver [idle]
          (snd (step demo_config demo_solver (idle\<lparr>connect_ok := False\<rparr>) initial))))
          = Orchestrating)"
proof -
  let ?i = "idle\<lparr>connect_ok := False\<rparr>"
  have h: "at initial = Supervising" "\<not> exiting initial"
    "SIGINT \<notin> set (signals ?i)" "\<not> connect_ok ?i"
    by (simp_all add: demo_defs)
  have q: "\<forall>j \<in> set [idle]. SIGINT \<notin> set (signals j)" "SIGINT \<notin> set (signals idle)"
    by (simp_all add: demo_defs)
  from failed_connect_backs_off [OF h, of demo_config demo_solver "[idle]"] h q show ?thesis
    by (simp add: demo_defs)
qed

lemma step_exiting:
  assumes "exiting st \<or> SIGINT \<in> set (signals i)"
  shows "\<forall>x \<in> set (fst (step cfg sol i st)). \<not> is_Connect (snd x)"
    and "requests (fst (step cfg sol i st)) = []"
    and "at st = Orchestrating \<longrightarrow> at (snd (step cfg sol i st)) = Supervising"
    and "at st = Supervising \<longrightarrow> at (snd (step cfg sol i st)) = Returned 0"
    and "at st = Orchestrating \<or> at st = Supervising \<longrightarrow> exiting (snd (step cfg sol i st))"
  using assms
  by (auto simp add: step_def case_prod_beta Let_def arrive_fields arrive_effects
      requests_replicate_Print requests_append loop_defs split: location.splits)

lemma step_stays_exiting: "exiting st \<Longrightarrow> exiting (snd (step cfg sol i st))"
  by (auto simp add: step_simps split: location.splits)

lemma run_exiting:
  assumes "exiting st"
  shows "(\<forall>x \<in> set (fst (run cfg sol ins st)). \<not> is_Connect (snd x))
     \<and> requests (fst (run cfg sol ins st)) = []"
  using assms
proof (induction ins arbitrary: st)
  case Nil
  show ?case by simp
next
  case (Cons i ins)
  from Cons.prems have e: "exiting st \<or> SIGINT \<in> set (signals i)" by simp
  from Cons.IH [OF step_stays_exiting [OF Cons.prems, of cfg sol i]]
    step_exiting(1,2) [OF e, of cfg sol]
  show ?case
    by (auto simp add: case_prod_beta requests_append)
qed

text \<open>
  C6. Once an interrupt has been handled, the inner loop ends at its next condition (the
  network is stopped and both threads are joined), the outer loop ends at its next
  condition, and \<open>main\<close> returns 0. From the interrupt on, no connect is attempted and
  no request is enqueued.
\<close>

theorem cancellation_shuts_down:
  assumes "SIGINT \<in> set (signals i1)" and "at st = Orchestrating \<or> at st = Supervising"
  shows "(at st = Orchestrating \<longrightarrow>
            at (snd (step cfg sol i1 st)) = Supervising
            \<and> map snd (fst (step cfg sol i1 st)) =
                replicate (count_list (signals i1) SIGINT) (Print ExitingTheMiner)
                @ [StopRunning, JoinReader, JoinWriter])
     \<and> (at st = Supervising \<longrightarrow> at (snd (step cfg sol i1 st)) = Returned 0)
     \<and> at (snd (run cfg sol (i1 # i2 # ins) st)) = Returned 0
     \<and> (\<forall>x \<in> set (fst (run cfg sol (i1 # i2 # ins) st)). \<not> is_Connect (snd x))
     \<and> requests (fst (run cfg sol (i1 # i2 # ins) st)) = []"
proof -
  let ?st1 = "snd (step cfg sol i1 st)"
  let ?st2 = "snd (step cfg sol i2 ?st1)"
  have e: "exiting st \<or> SIGINT \<in> set (signals i1)" using assms(1) by simp
  note s = step_exiting [OF e, of cfg sol]
  have a: "at st = Orchestrating \<longrightarrow>
       map snd (fst (step cfg sol i1 st)) =
         replicate (count_list (signals i1) SIGINT) (Print ExitingTheMiner)
         @ [StopRunning, JoinReader, JoinWriter]"
    using assms(1)
    by (simp add: step_def case_prod_beta Let_def arrive_fields arrive_effects orchestrate_def)
  have e1: "exiting ?st1" using s(5) assms(2) by blast
  have "at ?st2 = Returned 0"
  proof (cases "at st = Orchestrating")
    case True
    with s(3) have "at ?st1 = Supervising" by simp
    with step_exiting(4) [of ?st1 i2 cfg sol] e1 show ?thesis by simp
  next
    case False
    with assms(2) s(4) have "at ?st1 = Returned 0" by simp
    then show ?thesis by (simp add: step_halted)
  qed
  then have b: "at (snd (run cfg sol (i1 # i2 # ins) st)) = Returned 0"
    by (simp add: case_prod_beta run_halted)
  have c: "(\<forall>x \<in> set (fst (run cfg sol (i1 # i2 # ins) st)). \<not> is_Connect (snd x))
     \<and> requests (fst (run cfg sol (i1 # i2 # ins) st)) = []"
    using run_exiting [OF e1, of cfg sol "i2 # ins"] s(1,2)
    by (auto simp add: case_prod_beta requests_append)
  from a b c s(3,4) show ?thesis by blast
qed


theorem cancellation_shuts_down_witness:
  "SIGINT \<in> set (signals (idle\<lparr>signals := [2]\<rparr>))
   \<and> (at epoch_start = Orchestrating \<or> at epoch_start = Supervising)
   \<and> at (snd (step demo_config demo_solver (idle\<lparr>signals := [2]\<rparr>) epoch_start)) = Supervising
   \<and> at (snd (run demo_config demo_solver [idle\<lparr>signals := [2]\<rparr>, idle] epoch_start))
        = Returned 0
   \<and> requests (fst (run demo_config demo_solver [idle\<lparr>signals := [2]\<rparr>, idle] epoch_start))
        = []"
proof -
  let ?i = "idle\<lparr>signals := [2]\<rparr>"
  have h: "SIGINT \<in> set (signals ?i)" "at epoch_start = Orchestrating \<or> at epoch_start = Supervising"
    by (simp_all add: demo_defs)
  from cancellation_shuts_down [OF h, of demo_config demo_solver idle "[]"] h show ?thesis
    by (simp add: demo_defs)
qed

subsection \<open>Epochs\<close>

lemma epochs_of_append_calm:
  "\<forall>x \<in> set a. \<forall>h p. snd x \<noteq> Connect h p True \<Longrightarrow> epochs_of (a @ b) = epochs_of b"
  by (induction a rule: epochs_of.induct) auto

lemma epoch_requests_append:
  "\<forall>x \<in> set a. snd x \<noteq> StopRunning \<Longrightarrow> epoch_requests (a @ b) = requests a @ epoch_requests b"
  by (simp add: epoch_requests_def requests_append)

lemma epoch_requests_replicate_Print:
  "epoch_requests (replicate n (t, Print m) @ b) = epoch_requests b"
  by (simp add: epoch_requests_append requests_replicate_Print)

lemma epochs_of_replicate_Print: "epochs_of (replicate n (t, Print m) @ b) = epochs_of b"
  by (simp add: epochs_of_append_calm)

lemma step_connected:
  assumes "at st = Supervising" and "\<not> exiting (snd (arrive i st))" and "connect_ok i"
  shows "\<exists>t u. fst (step cfg sol i st) = fst (arrive i st) @
           [(t, Print ConnectingToTheNode), (t, Connect (nodeHost cfg) (nodePort cfg) True),
            (u, StartReader), (u, StartWriter),
            (u, Enqueue (Login (loginName cfg) (password cfg) True))]"
    and "at (snd (step cfg sol i st)) = Orchestrating"
  using assms by (simp_all add: step_def case_prod_beta Let_def supervise_def)

lemma step_not_connected:
  assumes "at st = Supervising" and "exiting (snd (arrive i st)) \<or> \<not> connect_ok i"
  shows "\<forall>x \<in> set (fst (step cfg sol i st)). \<forall>h p. snd x \<noteq> Connect h p True"
    and "requests (fst (step cfg sol i st)) = []"
    and "at (snd (step cfg sol i st)) \<noteq> Orchestrating"
  using assms
  by (auto simp add: step_def case_prod_beta Let_def supervise_def sleep_for_def arrive_effects
      arrive_fields requests_append requests_replicate_Print)

lemma step_in_epoch:
  assumes "at st = Orchestrating" and "is_running i \<and> \<not> exiting (snd (arrive i st))"
  shows "\<forall>x \<in> set (fst (step cfg sol i st)). (\<forall>h p. snd x \<noteq> Connect h p True) \<and> snd x \<noteq> StopRunning"
    and "at (snd (step cfg sol i st)) = Orchestrating"
  using assms
  by (simp_all add: step_def case_prod_beta Let_def arrive_effects arrive_fields loop_defs)

lemma step_epoch_ends:
  assumes "at st = Orchestrating" and "\<not> (is_running i \<and> \<not> exiting (snd (arrive i st)))"
  shows "\<exists>t. fst (step cfg sol i st) = fst (arrive i st) @ [(t, StopRunning), (t, JoinReader), (t, JoinWriter)]"
    and "at (snd (step cfg sol i st)) = Supervising"
  using assms by (auto simp add: step_def case_prod_beta Let_def orchestrate_def)

lemma step_gone:
  assumes "at st \<noteq> Supervising" and "at st \<noteq> Orchestrating"
  shows "step cfg sol i st = ([], st)"
  using assms by (cases "at st") (simp_all add: step_def)

lemma epochs_start_with_login:
  "\<forall>q \<in> set (epochs_of (fst (run cfg sol ins st))).
     \<exists>rest. q = Login (loginName cfg) (password cfg) True # rest"
proof (induction ins arbitrary: st)
  case Nil
  show ?case by simp
next
  case (Cons i ins)
  let ?o1 = "fst (step cfg sol i st)"
  let ?st1 = "snd (step cfg sol i st)"
  let ?o2 = "fst (run cfg sol ins ?st1)"
  have out: "fst (run cfg sol (i # ins) st) = ?o1 @ ?o2"
    by (simp add: case_prod_beta)
  consider (conn) "at st = Supervising" "\<not> exiting (snd (arrive i st))" "connect_ok i"
    | (noconn) "at st = Supervising" "exiting (snd (arrive i st)) \<or> \<not> connect_ok i"
    | (inep) "at st = Orchestrating" "is_running i \<and> \<not> exiting (snd (arrive i st))"
    | (endep) "at st = Orchestrating" "\<not> (is_running i \<and> \<not> exiting (snd (arrive i st)))"
    | (gone) "at st \<noteq> Supervising" "at st \<noteq> Orchestrating"
    by blast
  then show ?case
  proof cases
    case conn
    from step_connected(1) [OF conn, of cfg sol] obtain t u where
      "?o1 = fst (arrive i st) @
           [(t, Print ConnectingToTheNode), (t, Connect (nodeHost cfg) (nodePort cfg) True),
            (u, StartReader), (u, StartWriter),
            (u, Enqueue (Login (loginName cfg) (password cfg) True))]"
      by blast
    then have "epochs_of (?o1 @ ?o2) =
        (Login (loginName cfg) (password cfg) True # epoch_requests ?o2) # epochs_of ?o2"
      by (simp add: arrive_effects epochs_of_replicate_Print epoch_requests_def)
    with Cons.IH [of ?st1] out show ?thesis by simp
  next
    case noconn
    from step_not_connected(1) [OF noconn, of cfg sol]
    have "epochs_of (?o1 @ ?o2) = epochs_of ?o2" by (rule epochs_of_append_calm)
    with Cons.IH [of ?st1] out show ?thesis by simp
  next
    case inep
    from step_in_epoch(1) [OF inep, of cfg sol]
    have "epochs_of (?o1 @ ?o2) = epochs_of ?o2" by (simp add: epochs_of_append_calm)
    with Cons.IH [of ?st1] out show ?thesis by simp
  next
    case endep
    from step_epoch_ends(1) [OF endep, of cfg sol]
    have "epochs_of (?o1 @ ?o2) = epochs_of ?o2"
      by (auto simp add: arrive_effects epochs_of_replicate_Print)
    with Cons.IH [of ?st1] out show ?thesis by simp
  next
    case gone
    from step_gone [OF gone, of cfg sol i] Cons.IH [of st] out show ?thesis by simp
  qed
qed

lemma requests_in_epochs:
  "(at st = Orchestrating \<longrightarrow>
      requests (fst (run cfg sol ins st)) =
        epoch_requests (fst (run cfg sol ins st)) @ concat (epochs_of (fst (run cfg sol ins st))))
   \<and> (at st \<noteq> Orchestrating \<longrightarrow>
      requests (fst (run cfg sol ins st)) = concat (epochs_of (fst (run cfg sol ins st))))"
proof (induction ins arbitrary: st)
  case Nil
  show ?case by (simp add: epoch_requests_def)
next
  case (Cons i ins)
  let ?o1 = "fst (step cfg sol i st)"
  let ?st1 = "snd (step cfg sol i st)"
  let ?o2 = "fst (run cfg sol ins ?st1)"
  have out: "fst (run cfg sol (i # ins) st) = ?o1 @ ?o2"
    by (simp add: case_prod_beta)
  consider (conn) "at st = Supervising" "\<not> exiting (snd (arrive i st))" "connect_ok i"
    | (noconn) "at st = Supervising" "exiting (snd (arrive i st)) \<or> \<not> connect_ok i"
    | (inep) "at st = Orchestrating" "is_running i \<and> \<not> exiting (snd (arrive i st))"
    | (endep) "at st = Orchestrating" "\<not> (is_running i \<and> \<not> exiting (snd (arrive i st)))"
    | (gone) "at st \<noteq> Supervising" "at st \<noteq> Orchestrating"
    by blast
  then show ?case
  proof cases
    case conn
    from step_connected(1) [OF conn, of cfg sol] obtain t u where
      o1: "?o1 = fst (arrive i st) @
           [(t, Print ConnectingToTheNode), (t, Connect (nodeHost cfg) (nodePort cfg) True),
            (u, StartReader), (u, StartWriter),
            (u, Enqueue (Login (loginName cfg) (password cfg) True))]"
      by blast
    then have e: "epochs_of (?o1 @ ?o2) =
        (Login (loginName cfg) (password cfg) True # epoch_requests ?o2) # epochs_of ?o2"
      by (simp add: arrive_effects epochs_of_replicate_Print epoch_requests_def)
    from o1 have r: "requests (?o1 @ ?o2) = Login (loginName cfg) (password cfg) True # requests ?o2"
      by (simp add: requests_append arrive_silent)
    from Cons.IH [of ?st1] step_connected(2) [OF conn, of cfg sol]
    have "requests ?o2 = epoch_requests ?o2 @ concat (epochs_of ?o2)" by simp
    with e r out conn(1) show ?thesis by simp
  next
    case noconn
    note s = step_not_connected [OF noconn, of cfg sol]
    from s(1) have "epochs_of (?o1 @ ?o2) = epochs_of ?o2" by (rule epochs_of_append_calm)
    with Cons.IH [of ?st1] s(2,3) out noconn(1) show ?thesis
      by (simp add: requests_append)
  next
    case inep
    note s = step_in_epoch [OF inep, of cfg sol]
    from s(1) have "epochs_of (?o1 @ ?o2) = epochs_of ?o2" by (simp add: epochs_of_append_calm)
    moreover from s(1) have "epoch_requests (?o1 @ ?o2) = requests ?o1 @ epoch_requests ?o2"
      by (simp add: epoch_requests_append)
    ultimately show ?thesis
      using Cons.IH [of ?st1] s(2) out inep(1) by (simp add: requests_append)
  next
    case endep
    from step_epoch_ends(1) [OF endep, of cfg sol] obtain t where
      o1: "?o1 = fst (arrive i st) @ [(t, StopRunning), (t, JoinReader), (t, JoinWriter)]"
      by blast
    then have "epochs_of (?o1 @ ?o2) = epochs_of ?o2"
      by (simp add: arrive_effects epochs_of_replicate_Print)
    moreover from o1 have "epoch_requests (?o1 @ ?o2) = []"
      by (simp add: arrive_effects epoch_requests_replicate_Print) (simp add: epoch_requests_def)
    moreover from o1 have "requests ?o1 = []"
      by (simp add: requests_append arrive_silent)
    ultimately show ?thesis
      using Cons.IH [of ?st1] step_epoch_ends(2) [OF endep, of cfg sol] out endep(1)
      by (simp add: requests_append)
  next
    case gone
    from step_gone [OF gone, of cfg sol i] Cons.IH [of st] out gone show ?thesis by simp
  qed
qed

text \<open>
  C7. In every run of the session loop, the requests of every epoch begin with the login
  request, so the login request is enqueued before every keep-alive, get-job and submit
  request of its epoch; and every request of the run belongs to an epoch.
\<close>

theorem login_heads_every_epoch:
  "(\<forall>q \<in> set (epochs_of (fst (run cfg sol ins initial))).
      \<exists>rest. q = Login (loginName cfg) (password cfg) True # rest)
   \<and> concat (epochs_of (fst (run cfg sol ins initial))) = requests (fst (run cfg sol ins initial))"
  using epochs_start_with_login [of cfg sol ins initial] requests_in_epochs [of initial cfg sol ins]
  by (simp add: initial_def)

theorem login_heads_every_epoch_witness:
  "epochs_of (fst (run demo_config demo_solver [idle, idle\<lparr>active_job := job7, rnd := 1\<rparr>]
      initial)) = [[Login ''miner'' [] True, Submit 31 job7 1 [42]]]"
  using login_heads_every_epoch
    [of demo_config demo_solver "[idle, idle\<lparr>active_job := job7, rnd := 1\<rparr>]"]
  by (simp add: demo_defs step_simps arrive_quiet epoch_requests_def seconds_def)

subsection \<open>Startup\<close>

lemma parse_args_last:
  "even i \<Longrightarrow> odd (length args) \<Longrightarrow> parse_args (args @ [t]) i p = parse_args args i p"
proof (induction args i p rule: parse_args.induct)
  case (1 argv i p)
  show ?case
  proof (cases "i < length argv")
    case True
    then have lt: "i < length (argv @ [t])" by simp
    have k: "(argv @ [t]) ! (i - 1) = argv ! (i - 1)" "(argv @ [t]) ! i = argv ! i"
      using True by (auto simp: nth_append)
    show ?thesis
      unfolding parse_args.simps[of "argv @ [t]" i p] parse_args.simps[of argv i p]
      using True lt k 1
      by (simp add: Let_def split: option.splits sum.splits)
  next
    case False
    with 1(5,6) have "i \<noteq> length argv" by auto
    with False have "\<not> i < length (argv @ [t])" by simp
    with False show ?thesis
      by (simp add: parse_args.simps)
  qed
qed

lemma main_startup_last:
  assumes "odd (length args)" and "7 \<le> length args"
  shows "main_startup (args @ [t]) = main_startup args"
  using assms by (simp add: main_startup_def parse_args_last)

text \<open>
  C9. When \<open>argc\<close> is even and at least 8, the last token of the command line is never
  read: the startup code ends the same way without it, and the same way with any other
  token in its place. A trailing token without a partner is ignored, not rejected.
\<close>

theorem trailing_token_ignored:
  assumes "even (length argv)" and "8 \<le> length argv"
  shows "main_startup argv = main_startup (butlast argv)
     \<and> main_startup (butlast argv @ [t]) = main_startup argv"
proof -
  from assms(2) have ne: "argv \<noteq> []" by auto
  then have split: "butlast argv @ [last argv] = argv" by simp
  from assms ne have l: "odd (length (butlast argv))" "7 \<le> length (butlast argv)"
    by simp_all
  from main_startup_last [OF l, of "last argv"] main_startup_last [OF l, of t] split
  show ?thesis by simp
qed

theorem trailing_token_ignored_witness:
  "even (length [''miner'', ''-node'', ''host:3416'', ''-login'', ''u'', ''-algo'', ''C31'', ''-bogus''])
   \<and> 8 \<le> length [''miner'', ''-node'', ''host:3416'', ''-login'', ''u'', ''-algo'', ''C31'', ''-bogus'']
   \<and> main_startup [''miner'', ''-node'', ''host:3416'', ''-login'', ''u'', ''-algo'', ''C31'', ''-bogus'']
      = Start \<lparr>nodeHost = ''host'', nodePort = 3416, loginName = ''u'', password = [], algo = ''C31''\<rparr>
   \<and> main_startup [''miner'', ''-node'', ''host:3416'', ''-login'', ''u'', ''-algo'', ''C31'']
      = Start \<lparr>nodeHost = ''host'', nodePort = 3416, loginName = ''u'', password = [], algo = ''C31''\<rparr>"
proof -
  let ?argv = "[''miner'', ''-node'', ''host:3416'', ''-login'', ''u'', ''-algo'', ''C31'', ''-bogus'']"
  have h: "even (length ?argv)" "8 \<le> length ?argv" by simp_all
  have e: "main_startup [''miner'', ''-node'', ''host:3416'', ''-login'', ''u'', ''-algo'', ''C31'']
      = Start \<lparr>nodeHost = ''host'', nodePort = 3416, loginName = ''u'', password = [], algo = ''C31''\<rparr>"
    by (simp add: main_startup_def parse_args.simps stoi_def no_config_def isspace_def
        isdigit_def INT_MIN_def INT_MAX_def)
  from trailing_token_ignored [OF h, of "[]"] h e show ?thesis by simp
qed

text \<open>
  C8. The claim asks that a missing port be reported and answered with a nonzero exit
  status. With \<open>-node host:\<close> the port text is empty, \<open>std::stoi\<close> throws
  \<open>std::invalid_argument\<close>, and \<open>main\<close> has no handler: none of its error messages is
  printed and \<open>main\<close> does not return 1, the process is terminated.
\<close>

theorem empty_port_is_uncaught:
  "main_startup [''miner'', ''-node'', ''host:'', ''-login'', ''u'', ''-algo'', ''C31'']
     = Uncaught invalid_argument
   \<and> main solvers [''miner'', ''-node'', ''host:'', ''-login'', ''u'', ''-algo'', ''C31''] ins
     = ([], initial\<lparr>at := Terminated invalid_argument\<rparr>)"
proof -
  have "main_startup [''miner'', ''-node'', ''host:'', ''-login'', ''u'', ''-algo'', ''C31'']
     = Uncaught invalid_argument"
    by (simp add: main_startup_def parse_args.simps stoi_def no_config_def isspace_def isdigit_def)
  then show ?thesis by (simp add: main_def)
qed

text \<open>
  What the startup code does reject: it returns 1 whenever it returns before the loop, it
  enters the loop only with a port, a host and one of the two algorithm names, and
  without entering the loop it attempts no connection.
\<close>

lemma main_without_start:
  assumes "\<forall>p. main_startup argv \<noteq> Start p"
  shows "\<forall>x \<in> set (fst (main solvers argv ins)). \<not> is_Connect (snd x)"
  using assms by (cases "main_startup argv") (simp_all add: main_def)

lemma parse_args_exit: "parse_args argv i p = Exit c m \<Longrightarrow> c = 1"
proof (induction argv i p rule: parse_args.induct)
  case (1 argv i p)
  from "1.prems" show ?case
    unfolding parse_args.simps [of argv i p]
    using "1.IH"
    by (auto simp add: Let_def split: if_splits option.splits sum.splits)
qed

lemma main_startup_rejects:
  "length argv < 7 \<Longrightarrow> \<exists>m. main_startup argv = Exit 1 m"
  "main_startup argv = Start p \<Longrightarrow>
     7 \<le> length argv \<and> nodePort p \<noteq> - 1 \<and> nodeHost p \<noteq> [] \<and> (algo p = ''C31'' \<or> algo p = ''C32'')"
  "main_startup argv = Exit c m \<Longrightarrow> c = 1"
  by (auto simp add: main_startup_def split: if_splits startup.splits dest: parse_args_exit)

end
